theory Spec2Isabelle
  imports Complex_Main
begin

section \<open>Data model of the connection game (src/pages/ConnectGame.tsx)\<close>

text \<open>
  The rows of the \<open>connections\<close> table as the page holds them
  (\<open>interface Connection\<close>). The field \<open>id\<close> is called \<open>conn_id\<close> here.
  Names are JavaScript strings; they are modelled as \<open>string\<close>, a character standing
  for one of the 256 code units from U+0000 to U+00FF.
\<close>

record Connection =
  conn_id :: int
  name1 :: string
  name2 :: string
  status :: string

text \<open>An element of \<open>revealedConnections\<close>: \<open>{source: string, target: string}\<close>.\<close>

record Link =
  source :: string
  target :: string

section \<open>Adjacency in the full graph\<close>

text \<open>\<open>getConnections\<close>: the neighbours of a person, in the order of the edge list.\<close>

definition getConnections :: "Connection list \<Rightarrow> string \<Rightarrow> string list" where
  "getConnections connections personName =
     map (\<lambda>conn. if name1 conn = personName then name2 conn else name1 conn)
       (filter (\<lambda>conn. name1 conn = personName \<or> name2 conn = personName) connections)"

text \<open>\<open>areDirectlyConnected\<close>: \<open>connections.some(...)\<close>.\<close>

definition areDirectlyConnected :: "Connection list \<Rightarrow> string \<Rightarrow> string \<Rightarrow> bool" where
  "areDirectlyConnected connections person1 person2 =
     list_ex (\<lambda>conn. (name1 conn = person1 \<and> name2 conn = person2) \<or>
                     (name1 conn = person2 \<and> name2 conn = person1)) connections"

section \<open>isGraphConnected: reachability inside a given list of links\<close>

text \<open>
  The body of \<open>revealedConnections.forEach\<close> inside the search loop. The set
  \<open>visited\<close> is not changed while the links are enumerated; the queue grows at its end.
\<close>

fun enqueue_links :: "string \<Rightarrow> string set \<Rightarrow> Link list \<Rightarrow> string list \<Rightarrow> string list" where
  "enqueue_links current visited [] queue = queue"
| "enqueue_links current visited (conn # conns) queue =
     (let q1 = (if source conn = current \<and> target conn \<notin> visited
                then queue @ [target conn] else queue);
          q2 = (if target conn = current \<and> source conn \<notin> visited
                then q1 @ [source conn] else q1)
      in enqueue_links current visited conns q2)"

definition link_nodes :: "Link list \<Rightarrow> string set" where
  "link_nodes rc = source ` set rc \<union> target ` set rc"

definition pushed_by :: "string \<Rightarrow> string set \<Rightarrow> Link \<Rightarrow> string list" where
  "pushed_by current visited conn =
     (if source conn = current \<and> target conn \<notin> visited then [target conn] else []) @
     (if target conn = current \<and> source conn \<notin> visited then [source conn] else [])"

lemma enqueue_links_eq:
  "enqueue_links current visited rc queue =
     queue @ concat (map (pushed_by current visited) rc)"
  by (induction rc arbitrary: queue) (simp_all add: pushed_by_def Let_def)

lemma enqueue_links_outside:
  "current \<notin> link_nodes rc \<Longrightarrow> enqueue_links current visited rc queue = queue"
  by (induction rc arbitrary: queue) (auto simp: link_nodes_def)

lemma card_unvisited_less:
  assumes "finite A" "x \<in> A" "x \<notin> V"
  shows "card (A - insert x V) < card (A - V)"
proof -
  have "A - insert x V \<subset> A - V" using assms by auto
  then show ?thesis using assms(1) by (simp add: psubset_card_mono)
qed

text \<open>
  The \<open>while (queue.length > 0)\<close> loop of \<open>isGraphConnected\<close>: \<open>queue.shift()\<close>, the
  \<open>continue\<close> on a visited name, the early \<open>return true\<close> at the target.
\<close>

function connected_loop :: "Link list \<Rightarrow> string \<Rightarrow> string set \<Rightarrow> string list \<Rightarrow> bool" where
  "connected_loop rc targetPerson visited [] = False"
| "connected_loop rc targetPerson visited (current # queue) =
     (if current \<in> visited then connected_loop rc targetPerson visited queue
      else if current = targetPerson then True
      else connected_loop rc targetPerson (insert current visited)
             (enqueue_links current (insert current visited) rc queue))"
  by pat_completeness auto
termination
proof (relation "measures [\<lambda>(rc, t, visited, queue). card (link_nodes rc - visited),
                           \<lambda>(rc, t, visited, queue). length queue]", goal_cases)
  case 1
  show ?case by simp
next
  case (2 rc targetPerson visited current queue)
  then show ?case by simp
next
  case (3 rc targetPerson visited current queue)
  show ?case
  proof (cases "current \<in> link_nodes rc")
    case True
    have "finite (link_nodes rc)" by (simp add: link_nodes_def)
    from card_unvisited_less[OF this True] 3(1) show ?thesis by simp
  next
    case False
    then have "link_nodes rc - insert current visited = link_nodes rc - visited" by auto
    with False show ?thesis by (simp add: enqueue_links_outside)
  qed
qed

definition isGraphConnected :: "Link list \<Rightarrow> string \<Rightarrow> string \<Rightarrow> bool" where
  "isGraphConnected revealedConnections startPerson targetPerson =
     (if length revealedConnections = 0 then False
      else connected_loop revealedConnections targetPerson {} [startPerson])"

section \<open>Paths\<close>

text \<open>
  A path from \<open>a\<close> to \<open>b\<close> under an adjacency relation: a non-empty list of names
  that begins at \<open>a\<close>, ends at \<open>b\<close> and whose consecutive elements are adjacent.
  \<open>linked rc\<close> is adjacency in a list of links, read in both directions as the search does.
\<close>

definition path_between :: "(string \<Rightarrow> string \<Rightarrow> bool) \<Rightarrow> string \<Rightarrow> string \<Rightarrow> string list \<Rightarrow> bool" where
  "path_between adj a b p = (p \<noteq> [] \<and> hd p = a \<and> last p = b \<and> successively adj p)"

definition linked :: "Link list \<Rightarrow> string \<Rightarrow> string \<Rightarrow> bool" where
  "linked rc u v =
     list_ex (\<lambda>conn. (source conn = u \<and> target conn = v) \<or>
                     (target conn = u \<and> source conn = v)) rc"

lemma path_between_single: "path_between adj a a [a]"
  by (simp add: path_between_def)

lemma path_between_snoc:
  "path_between adj a u p \<Longrightarrow> adj u v \<Longrightarrow> path_between adj a v (p @ [v])"
  by (auto simp: path_between_def successively_append_iff)

lemma path_between_snocD:
  assumes "path_between adj a v (p @ [v'])" "p \<noteq> []"
  shows "path_between adj a (last p) p \<and> adj (last p) v \<and> v' = v"
  using assms by (auto simp: path_between_def successively_append_iff)

lemma closed_contains_paths:
  assumes closed: "\<forall>u\<in>V. \<forall>v. adj u v \<longrightarrow> v \<in> V"
  shows "path_between adj a b p \<Longrightarrow> a \<in> V \<Longrightarrow> b \<in> V"
proof (induction p arbitrary: a)
  case Nil
  then show ?case by (simp add: path_between_def)
next
  case (Cons x p)
  show ?case
  proof (cases p)
    case Nil
    with Cons.prems show ?thesis by (auto simp: path_between_def)
  next
    case (Cons y q)
    with Cons.prems have "x = a" "adj a y" "path_between adj y b p"
      by (auto simp: path_between_def)
    with Cons.IH[of y] closed Cons.prems(2) show ?thesis by blast
  qed
qed

lemma set_enqueue_links:
  "set (enqueue_links current visited rc queue) =
     set queue \<union> {v. linked rc current v \<and> v \<notin> visited}"
  by (auto simp: enqueue_links_eq pushed_by_def linked_def list_ex_iff split: if_splits)

lemma connected_loop_sound:
  "connected_loop rc t V q \<Longrightarrow> \<forall>v\<in>set q. \<exists>p. path_between (linked rc) s v p \<Longrightarrow>
     \<exists>p. path_between (linked rc) s t p"
proof (induction rc t V q rule: connected_loop.induct)
  case (1 rc t V)
  then show ?case by simp
next
  case (2 rc t V current queue)
  show ?case
  proof (cases "current \<in> V")
    case True
    with 2 show ?thesis by simp
  next
    case notin: False
    show ?thesis
    proof (cases "current = t")
      case True
      with 2(4) show ?thesis by simp
    next
      case False
      from 2(4) obtain pc where pc: "path_between (linked rc) s current pc" by auto
      have "\<forall>v\<in>set (enqueue_links current (insert current V) rc queue).
              \<exists>p. path_between (linked rc) s v p"
        using 2(4) pc by (auto simp: set_enqueue_links intro: path_between_snoc)
      with 2(2)[OF notin False] 2(3) notin False show ?thesis by simp
    qed
  qed
qed

lemma connected_loop_complete:
  "\<not> connected_loop rc t V q \<Longrightarrow> t \<notin> V \<Longrightarrow> s \<in> V \<union> set q \<Longrightarrow>
   (\<forall>u\<in>V. \<forall>v. linked rc u v \<longrightarrow> v \<in> V \<union> set q) \<Longrightarrow>
     \<not> (\<exists>p. path_between (linked rc) s t p)"
proof (induction rc t V q rule: connected_loop.induct)
  case (1 rc t V)
  have "\<forall>u\<in>V. \<forall>v. linked rc u v \<longrightarrow> v \<in> V" using 1(4) by simp
  from closed_contains_paths[OF this] 1(2,3) show ?case by auto
next
  case (2 rc t V current queue)
  show ?case
  proof (cases "current \<in> V")
    case True
    have "s \<in> V \<union> set queue" using 2(5) True by auto
    moreover have "\<forall>u\<in>V. \<forall>v. linked rc u v \<longrightarrow> v \<in> V \<union> set queue"
      using 2(6) True by auto
    ultimately show ?thesis using 2(1)[OF True] 2(3,4) True by simp
  next
    case notin: False
    have ne: "current \<noteq> t" using 2(3) notin by auto
    let ?V = "insert current V"
    let ?q = "enqueue_links current ?V rc queue"
    have a: "\<not> connected_loop rc t ?V ?q" using 2(3) notin ne by simp
    have b: "t \<notin> ?V" using 2(4) ne by simp
    have c: "s \<in> ?V \<union> set ?q" using 2(5) by (auto simp: set_enqueue_links)
    have d: "\<forall>u\<in>?V. \<forall>v. linked rc u v \<longrightarrow> v \<in> ?V \<union> set ?q"
      using 2(6) by (auto simp: set_enqueue_links)
    from 2(2)[OF notin ne a b c d] show ?thesis .
  qed
qed

lemma isGraphConnected_iff_path:
  "rc \<noteq> [] \<Longrightarrow> isGraphConnected rc s t \<longleftrightarrow> (\<exists>p. path_between (linked rc) s t p)"
proof
  assume "rc \<noteq> []" "isGraphConnected rc s t"
  then have "connected_loop rc t {} [s]" by (simp add: isGraphConnected_def)
  from connected_loop_sound[OF this, of s] show "\<exists>p. path_between (linked rc) s t p"
    using path_between_single by auto
next
  assume ne: "rc \<noteq> []" and p: "\<exists>p. path_between (linked rc) s t p"
  show "isGraphConnected rc s t"
  proof (rule ccontr)
    assume "\<not> isGraphConnected rc s t"
    then have "\<not> connected_loop rc t {} [s]" using ne by (simp add: isGraphConnected_def)
    from connected_loop_complete[OF this, of s] p show False by simp
  qed
qed

section \<open>findShortestPath: breadth-first search with recorded paths\<close>

text \<open>
  \<open>scan_connections\<close> is the \<open>for (const connection of personConnections)\<close> loop: it
  returns the found path (\<open>Inl\<close>) as soon as a neighbour is the target, and otherwise the
  queue with the unvisited neighbours appended. \<open>shortest_loop\<close> is the
  \<open>while (queue.length > 0)\<close> loop; a queue entry \<open>{person, path}\<close> is a pair.
\<close>

fun scan_connections ::
  "string \<Rightarrow> string set \<Rightarrow> string list \<Rightarrow> string list \<Rightarrow> (string \<times> string list) list
     \<Rightarrow> string list + (string \<times> string list) list" where
  "scan_connections targetPerson visited path [] queue = Inr queue"
| "scan_connections targetPerson visited path (connection # rest) queue =
     (if connection = targetPerson then Inl (path @ [connection])
      else if connection \<notin> visited
        then scan_connections targetPerson visited path rest
               (queue @ [(connection, path @ [connection])])
        else scan_connections targetPerson visited path rest queue)"

definition people_of :: "Connection list \<Rightarrow> string set" where
  "people_of connections = name1 ` set connections \<union> name2 ` set connections"

lemma scan_connections_eq:
  "scan_connections t V path ns queue =
     (if t \<in> set ns then Inl (path @ [t])
      else Inr (queue @ map (\<lambda>c. (c, path @ [c])) (filter (\<lambda>c. c \<notin> V) ns)))"
  by (induction ns arbitrary: queue) auto

lemma getConnections_outside:
  "person \<notin> people_of connections \<Longrightarrow> getConnections connections person = []"
  by (auto simp: getConnections_def people_of_def filter_empty_conv)

lemma in_getConnections:
  "v \<in> set (getConnections connections u) \<longleftrightarrow> areDirectlyConnected connections u v"
  by (auto simp: getConnections_def areDirectlyConnected_def list_ex_iff)

function shortest_loop ::
  "Connection list \<Rightarrow> string \<Rightarrow> string set \<Rightarrow> (string \<times> string list) list
     \<Rightarrow> string list option" where
  "shortest_loop connections targetPerson visited [] = None"
| "shortest_loop connections targetPerson visited ((person, path) # queue) =
     (if person \<in> visited then shortest_loop connections targetPerson visited queue
      else case scan_connections targetPerson (insert person visited) path
                  (getConnections connections person) queue of
             Inl found \<Rightarrow> Some found
           | Inr queue' \<Rightarrow> shortest_loop connections targetPerson (insert person visited) queue')"
  by pat_completeness auto
termination
proof (relation "measures [\<lambda>(cs, t, visited, queue). card (people_of cs - visited),
                           \<lambda>(cs, t, visited, queue). length queue]", goal_cases)
  case 1
  show ?case by simp
next
  case (2 cs t visited person path queue)
  then show ?case by simp
next
  case (3 cs t visited person path queue queue')
  show ?case
  proof (cases "person \<in> people_of cs")
    case True
    have "finite (people_of cs)" by (simp add: people_of_def)
    from card_unvisited_less[OF this True] 3(1) show ?thesis by simp
  next
    case False
    then have "people_of cs - insert person visited = people_of cs - visited" by auto
    moreover have "queue' = queue"
      using 3(2) False by (simp add: getConnections_outside)
    ultimately show ?thesis by simp
  qed
qed

definition findShortestPath :: "Connection list \<Rightarrow> string \<Rightarrow> string \<Rightarrow> string list option" where
  "findShortestPath connections start targetPerson =
     (if start = targetPerson then Some [start]
      else shortest_loop connections targetPerson {} [(start, [start])])"


section \<open>The invariant of the search\<close>

text \<open>
  Queue entries carry real paths from the start, in order of length and with lengths at most
  one apart; no visited person is adjacent to the target; every neighbour of a visited person
  is visited or waits in the queue with a path at most one longer than any path to that person.
\<close>

definition bfs_inv ::
  "Connection list \<Rightarrow> string \<Rightarrow> string \<Rightarrow> string set \<Rightarrow> (string \<times> string list) list \<Rightarrow> bool" where
  "bfs_inv cs s t V q \<longleftrightarrow>
     (\<forall>(v, p)\<in>set q. path_between (areDirectlyConnected cs) s v p) \<and>
     sorted (map (\<lambda>e. length (snd e)) q) \<and>
     (\<forall>e\<in>set q. \<forall>e'\<in>set q. length (snd e) \<le> length (snd e') + 1) \<and>
     (\<forall>u\<in>V. \<not> areDirectlyConnected cs u t) \<and>
     (s \<in> V \<or> (\<exists>p. (s, p) \<in> set q \<and> length p \<le> 1)) \<and>
     (\<forall>u\<in>V. \<forall>v p. areDirectlyConnected cs u v \<and> path_between (areDirectlyConnected cs) s u p \<longrightarrow>
        v \<in> V \<or> (\<exists>p'. (v, p') \<in> set q \<and> length p' \<le> length p + 1))"

lemma bfs_inv_visited:
  assumes inv: "bfs_inv cs s t V q"
  shows "path_between (areDirectlyConnected cs) s v p \<Longrightarrow>
         \<forall>e\<in>set q. length p < length (snd e) \<Longrightarrow> v \<in> V"
proof (induction p arbitrary: v rule: rev_induct)
  case Nil
  then show ?case by (simp add: path_between_def)
next
  case (snoc x xs)
  show ?case
  proof (cases "xs = []")
    case True
    with snoc.prems(1) have "v = s" by (auto simp: path_between_def)
    moreover have "s \<in> V \<or> (\<exists>p. (s, p) \<in> set q \<and> length p \<le> 1)"
      using inv by (simp add: bfs_inv_def)
    ultimately show ?thesis using snoc.prems(2) True by fastforce
  next
    case False
    from path_between_snocD[OF snoc.prems(1) False]
    have pre: "path_between (areDirectlyConnected cs) s (last xs) xs"
      and adj: "areDirectlyConnected cs (last xs) v" by auto
    have "last xs \<in> V" using snoc.IH[OF pre] snoc.prems(2) by fastforce
    with inv adj pre have "v \<in> V \<or> (\<exists>p'. (v, p') \<in> set q \<and> length p' \<le> length xs + 1)"
      unfolding bfs_inv_def by blast
    then show ?thesis using snoc.prems(2) by fastforce
  qed
qed

lemma bfs_inv_skip:
  assumes "bfs_inv cs s t V ((person, path) # queue)" "person \<in> V"
  shows "bfs_inv cs s t V queue"
  using assms unfolding bfs_inv_def by (auto; blast)


lemma bfs_inv_paths:
  "bfs_inv cs s t V q \<Longrightarrow> (v, p) \<in> set q \<Longrightarrow> path_between (areDirectlyConnected cs) s v p"
  unfolding bfs_inv_def by blast

lemma bfs_inv_sorted:
  "bfs_inv cs s t V q \<Longrightarrow> sorted (map (\<lambda>e. length (snd e)) q)"
  unfolding bfs_inv_def by blast

lemma bfs_inv_close:
  "bfs_inv cs s t V q \<Longrightarrow> e \<in> set q \<Longrightarrow> e' \<in> set q \<Longrightarrow> length (snd e) \<le> length (snd e') + 1"
  unfolding bfs_inv_def by blast

lemma bfs_inv_target:
  "bfs_inv cs s t V q \<Longrightarrow> u \<in> V \<Longrightarrow> \<not> areDirectlyConnected cs u t"
  unfolding bfs_inv_def by blast

lemma bfs_inv_start:
  "bfs_inv cs s t V q \<Longrightarrow> s \<in> V \<or> (\<exists>p. (s, p) \<in> set q \<and> length p \<le> 1)"
  unfolding bfs_inv_def by blast

lemma bfs_inv_frontier:
  "bfs_inv cs s t V q \<Longrightarrow> u \<in> V \<Longrightarrow> areDirectlyConnected cs u v \<Longrightarrow>
   path_between (areDirectlyConnected cs) s u p \<Longrightarrow>
     v \<in> V \<or> (\<exists>p'. (v, p') \<in> set q \<and> length p' \<le> length p + 1)"
  unfolding bfs_inv_def by blast

lemma bfs_inv_head_least:
  assumes "bfs_inv cs s t V ((person, path) # queue)" "e \<in> set ((person, path) # queue)"
  shows "length path \<le> length (snd e)"
  using bfs_inv_sorted[OF assms(1)] assms(2) by auto

lemma bfs_inv_push:
  assumes inv: "bfs_inv cs s t V ((person, path) # queue)"
    and new: "person \<notin> V"
    and nt: "t \<notin> set (getConnections cs person)"
  shows "bfs_inv cs s t (insert person V)
           (queue @ map (\<lambda>c. (c, path @ [c]))
              (filter (\<lambda>c. c \<notin> insert person V) (getConnections cs person)))"
    (is "bfs_inv cs s t ?V (queue @ ?new)")
proof -
  let ?A = "areDirectlyConnected cs"
  have hd_path: "path_between ?A s person path"
    using bfs_inv_paths[OF inv, of person path] by simp
  have least: "length path \<le> length (snd e)" if "e \<in> set queue" for e
    using bfs_inv_head_least[OF inv, of e] that by simp
  have most: "length (snd e) \<le> length path + 1" if "e \<in> set queue" for e
    using bfs_inv_close[OF inv, of e "(person, path)"] that by simp
  have new_len: "length (snd e) = length path + 1" if "e \<in> set ?new" for e
    using that by auto
  have shortest_here: "length path \<le> length p" if "path_between ?A s person p" for p
  proof (rule ccontr)
    assume less: "\<not> length path \<le> length p"
    have "\<forall>e\<in>set ((person, path) # queue). length p < length (snd e)"
    proof
      fix e assume "e \<in> set ((person, path) # queue)"
      from bfs_inv_head_least[OF inv this] less show "length p < length (snd e)" by simp
    qed
    from bfs_inv_visited[OF inv that this] new show False by simp
  qed
  have c1: "\<forall>(v, p)\<in>set (queue @ ?new). path_between ?A s v p"
  proof -
    have "path_between ?A s v p" if "(v, p) \<in> set queue" for v p
      using bfs_inv_paths[OF inv, of v p] that by simp
    moreover have "path_between ?A s v p" if "(v, p) \<in> set ?new" for v p
    proof -
      from that have "p = path @ [v]" "?A person v" by (auto simp: in_getConnections)
      with hd_path show ?thesis by (simp add: path_between_snoc)
    qed
    ultimately show ?thesis by auto
  qed
  have c2: "sorted (map (\<lambda>e. length (snd e)) (queue @ ?new))"
  proof -
    have "sorted (map (\<lambda>e. length (snd e)) queue)"
      using bfs_inv_sorted[OF inv] by simp
    moreover have "map (\<lambda>e. length (snd e)) ?new = replicate (length ?new) (length path + 1)"
      by (simp add: map_replicate_const o_def)
    then have "sorted (map (\<lambda>e. length (snd e)) ?new)"
      by (simp only: sorted_replicate)
    moreover have "\<forall>x\<in>set queue. \<forall>y\<in>set ?new. length (snd x) \<le> length (snd y)"
    proof (intro ballI)
      fix x y assume "x \<in> set queue" "y \<in> set ?new"
      from most[OF this(1)] new_len[OF this(2)] show "length (snd x) \<le> length (snd y)" by simp
    qed
    ultimately show ?thesis by (simp only: map_append sorted_append set_map) blast
  qed
  have c3: "\<forall>e\<in>set (queue @ ?new). \<forall>e'\<in>set (queue @ ?new).
              length (snd e) \<le> length (snd e') + 1"
  proof (intro ballI)
    fix e e' assume e: "e \<in> set (queue @ ?new)" and e': "e' \<in> set (queue @ ?new)"
    have "length (snd e) \<le> length path + 1"
      using e most[of e] new_len[of e] by (cases "e \<in> set queue") simp_all
    moreover have "length path \<le> length (snd e')"
      using e' least[of e'] new_len[of e'] by (cases "e' \<in> set queue") simp_all
    ultimately show "length (snd e) \<le> length (snd e') + 1" by simp
  qed
  have c4: "\<forall>u\<in>?V. \<not> ?A u t"
    using bfs_inv_target[OF inv] nt by (simp add: in_getConnections)
  have c5: "s \<in> ?V \<or> (\<exists>p. (s, p) \<in> set (queue @ ?new) \<and> length p \<le> 1)"
    using bfs_inv_start[OF inv] by auto
  have c6: "\<forall>u\<in>?V. \<forall>v p. ?A u v \<and> path_between ?A s u p \<longrightarrow>
              v \<in> ?V \<or> (\<exists>p'. (v, p') \<in> set (queue @ ?new) \<and> length p' \<le> length p + 1)"
  proof (intro ballI allI impI)
    fix u v p assume u: "u \<in> ?V" and h: "?A u v \<and> path_between ?A s u p"
    show "v \<in> ?V \<or> (\<exists>p'. (v, p') \<in> set (queue @ ?new) \<and> length p' \<le> length p + 1)"
    proof (cases "u = person")
      case True
      show ?thesis
      proof (cases "v \<in> ?V")
        case True
        then show ?thesis by simp
      next
        case False
        have "v \<in> set (getConnections cs person)"
          using h True by (simp add: in_getConnections)
        with False have "(v, path @ [v]) \<in> set ?new" by simp
        moreover have "length (path @ [v]) \<le> length p + 1"
          using shortest_here[of p] h True by simp
        ultimately have "(v, path @ [v]) \<in> set (queue @ ?new) \<and> length (path @ [v]) \<le> length p + 1"
          by simp
        then show ?thesis by blast
      qed
    next
      case False
      with u have "u \<in> V" by simp
      from bfs_inv_frontier[OF inv this, of v p] h
      have "v \<in> V \<or> (\<exists>p'. (v, p') \<in> set ((person, path) # queue) \<and> length p' \<le> length p + 1)"
        by simp
      then show ?thesis by auto
    qed
  qed
  show ?thesis unfolding bfs_inv_def by (intro conjI c1 c2 c3 c4 c5 c6)
qed

lemma bfs_inv_found_minimal:
  assumes inv: "bfs_inv cs s t V ((person, path) # queue)"
    and st: "s \<noteq> t"
    and p: "path_between (areDirectlyConnected cs) s t p"
  shows "length path + 1 \<le> length p"
proof (rule ccontr)
  assume less: "\<not> length path + 1 \<le> length p"
  from p have "p \<noteq> []" by (simp add: path_between_def)
  then obtain xs x where px: "p = xs @ [x]" by (cases p rule: rev_cases) auto
  have "xs \<noteq> []" using p st px by (auto simp: path_between_def)
  from path_between_snocD[OF p[unfolded px] this]
  have pre: "path_between (areDirectlyConnected cs) s (last xs) xs"
    and adj: "areDirectlyConnected cs (last xs) t" by auto
  have "\<forall>e\<in>set ((person, path) # queue). length xs < length (snd e)"
  proof
    fix e assume "e \<in> set ((person, path) # queue)"
    from bfs_inv_head_least[OF inv this] less px show "length xs < length (snd e)" by simp
  qed
  from bfs_inv_visited[OF inv pre this] have "last xs \<in> V" .
  with bfs_inv_target[OF inv] adj show False by simp
qed

lemma bfs_inv_exhausted:
  assumes inv: "bfs_inv cs s t V []" and st: "s \<noteq> t"
  shows "\<not> (\<exists>p. path_between (areDirectlyConnected cs) s t p)"
proof
  assume "\<exists>p. path_between (areDirectlyConnected cs) s t p"
  then obtain p where p: "path_between (areDirectlyConnected cs) s t p" ..
  then have "p \<noteq> []" by (simp add: path_between_def)
  then obtain xs x where px: "p = xs @ [x]" by (cases p rule: rev_cases) auto
  have "xs \<noteq> []" using p st px by (auto simp: path_between_def)
  from path_between_snocD[OF p[unfolded px] this]
  have pre: "path_between (areDirectlyConnected cs) s (last xs) xs"
    and adj: "areDirectlyConnected cs (last xs) t" by auto
  from bfs_inv_visited[OF inv pre] have "last xs \<in> V" by simp
  with bfs_inv_target[OF inv] adj show False by simp
qed

definition shortest_result ::
  "Connection list \<Rightarrow> string \<Rightarrow> string \<Rightarrow> string list option \<Rightarrow> bool" where
  "shortest_result cs s t r =
     (case r of
        None \<Rightarrow> \<not> (\<exists>p. path_between (areDirectlyConnected cs) s t p)
      | Some found \<Rightarrow> path_between (areDirectlyConnected cs) s t found \<and>
          (\<forall>p. path_between (areDirectlyConnected cs) s t p \<longrightarrow> length found \<le> length p))"

lemma shortest_loop_correct:
  "bfs_inv cs s t V q \<Longrightarrow> s \<noteq> t \<Longrightarrow> shortest_result cs s t (shortest_loop cs t V q)"
proof (induction cs t V q rule: shortest_loop.induct)
  case (1 cs t V)
  from bfs_inv_exhausted[OF 1(1) 1(2)] show ?case by (simp add: shortest_result_def)
next
  case (2 cs t V person path queue)
  show ?case
  proof (cases "person \<in> V")
    case True
    from 2(1)[OF True bfs_inv_skip[OF 2(3) True] 2(4)] True show ?thesis by simp
  next
    case new: False
    show ?thesis
    proof (cases "t \<in> set (getConnections cs person)")
      case True
      have "path_between (areDirectlyConnected cs) s person path"
        using bfs_inv_paths[OF 2(3), of person path] by simp
      then have "path_between (areDirectlyConnected cs) s t (path @ [t])"
        using True by (auto simp: in_getConnections intro: path_between_snoc)
      moreover have "\<forall>p. path_between (areDirectlyConnected cs) s t p \<longrightarrow>
                       length (path @ [t]) \<le> length p"
        using bfs_inv_found_minimal[OF 2(3) 2(4)] by simp
      ultimately show ?thesis
        using new True by (simp add: scan_connections_eq shortest_result_def)
    next
      case False
      let ?q = "queue @ map (\<lambda>c. (c, path @ [c]))
                  (filter (\<lambda>c. c \<notin> insert person V) (getConnections cs person))"
      have sc: "scan_connections t (insert person V) path (getConnections cs person) queue = Inr ?q"
        using False by (simp add: scan_connections_eq)
      from 2(2)[OF new sc bfs_inv_push[OF 2(3) new False] 2(4)]
      show ?thesis using new sc by simp
    qed
  qed
qed

lemma findShortestPath_result:
  "shortest_result cs s t (findShortestPath cs s t)"
proof (cases "s = t")
  case True
  have "path_between (areDirectlyConnected cs) s s [s]" by (rule path_between_single)
  moreover have "\<forall>p. path_between (areDirectlyConnected cs) s s p \<longrightarrow> length [s] \<le> length p"
    by (auto simp: path_between_def Suc_le_eq)
  ultimately show ?thesis using True by (simp add: findShortestPath_def shortest_result_def)
next
  case False
  have "bfs_inv cs s t {} [(s, [s])]"
    by (simp add: bfs_inv_def path_between_def)
  from shortest_loop_correct[OF this False] False show ?thesis
    by (simp add: findShortestPath_def)
qed

section \<open>The game session\<close>

text \<open>
  \<open>interface GameState\<close>. \<open>revealedPeople\<close> is a JavaScript \<open>Set\<close>, which keeps its
  elements in insertion order without duplicates and is enumerated in that order; it is a
  list here, extended by \<open>set_add\<close>. Numbers are integers.
\<close>

record GameState =
  startPerson :: string
  targetPerson :: string
  revealedPeople :: "string list"
  revealedConnections :: "Link list"
  gameStarted :: bool
  gameWon :: bool
  gameLost :: bool
  attempts :: int
  maxAttempts :: int
  timeStarted :: int
  timeElapsed :: int
  score :: int

definition set_add :: "string \<Rightarrow> string list \<Rightarrow> string list" where
  "set_add x xs = (if x \<in> set xs then xs else xs @ [x])"

text \<open>
  The set \<open>allPeople\<close> built by \<open>connections.forEach\<close>, in insertion order
  (\<open>Array.from(allPeople)\<close> is this list).
\<close>

definition allPeople :: "Connection list \<Rightarrow> string list" where
  "allPeople connections =
     foldl (\<lambda>acc conn. set_add (name2 conn) (set_add (name1 conn) acc)) [] connections"

text \<open>
  \<open>String.prototype.trim\<close> removes white space and line terminators at both ends. Among
  the code units up to U+00FF these are tab, line feed, vertical tab, form feed, carriage
  return, space and the no-break space U+00A0; the remaining white space of ECMAScript lies
  above U+00FF and has no value in the type of characters.
  \<open>toLowerCase\<close>, which the suggestion filter applies, maps the capitals A to Z and the
  Latin-1 capitals U+00C0 to U+00DE (U+00D7, the multiplication sign, is no letter) to the
  letter 32 code units higher.
\<close>

definition is_space :: "char \<Rightarrow> bool" where
  "is_space c =
     (c \<in> {CHR 0x09, CHR 0x0A, CHR 0x0B, CHR 0x0C, CHR 0x0D, CHR 0x20, CHR 0xA0})"

definition trim :: "string \<Rightarrow> string" where
  "trim s = rev (dropWhile is_space (rev (dropWhile is_space s)))"



text \<open>
  The pair selection of \<open>startNewGame\<close>. \<open>random i\<close> is the value of the \<open>i\<close>-th call
  of \<open>Math.random()\<close>, a number in \<open>[0, 1)\<close>; every round of the loop makes two calls.
  \<open>random_index r n\<close> is \<open>Math.floor(r * n)\<close>. \<open>acceptable\<close> is the test of the loop body;
  the loop leaves both names empty when it accepts no pair in 100 rounds.
\<close>

definition random_index :: "rat \<Rightarrow> nat \<Rightarrow> nat" where
  "random_index r n = nat \<lfloor>r * of_nat n\<rfloor>"

definition acceptable :: "Connection list \<Rightarrow> string \<Rightarrow> string \<Rightarrow> bool" where
  "acceptable connections randomStart randomTarget =
     (randomStart \<noteq> randomTarget \<and>
      \<not> areDirectlyConnected connections randomStart randomTarget \<and>
      (case findShortestPath connections randomStart randomTarget of
         None \<Rightarrow> False
       | Some path \<Rightarrow> 3 \<le> length path \<and> length path \<le> 6))"

function sample_loop ::
  "Connection list \<Rightarrow> string list \<Rightarrow> (nat \<Rightarrow> rat) \<Rightarrow> nat \<Rightarrow> string \<times> string" where
  "sample_loop connections peopleArray random attemptsMade =
     (if attemptsMade < 100 \<and> 2 \<le> length peopleArray then
        (let randomStart = peopleArray ! random_index (random (2 * attemptsMade)) (length peopleArray);
             randomTarget = peopleArray ! random_index (random (2 * attemptsMade + 1)) (length peopleArray)
         in if acceptable connections randomStart randomTarget
            then (randomStart, randomTarget)
            else sample_loop connections peopleArray random (attemptsMade + 1))
      else ('''', ''''))"
  by pat_completeness auto
termination
  by (relation "measure (\<lambda>(cs, people, random, n). 100 - n)") auto

declare sample_loop.simps [simp del]

text \<open>
  \<open>startNewGame\<close> returns without a new state while loading or without connections
  (\<open>NotReady\<close>) and after the alert (\<open>NotEnoughConnections\<close>). The test
  \<open>!startPerson || !targetPerson\<close> holds for the empty string, so the fallback to the first
  two people also runs when an accepted name is empty.
\<close>

datatype start_error = NotReady | NotEnoughConnections

definition startNewGame ::
  "Connection list \<Rightarrow> bool \<Rightarrow> (nat \<Rightarrow> rat) \<Rightarrow> int \<Rightarrow> start_error + GameState" where
  "startNewGame connections loading random now =
     (if loading \<or> length connections = 0 then Inl NotReady
      else
        let peopleArray = allPeople connections;
            (sampledStart, sampledTarget) = sample_loop connections peopleArray random 0;
            chosen =
              (if sampledStart = '''' \<or> sampledTarget = '''' then
                 (if 2 \<le> length peopleArray then Some (peopleArray ! 0, peopleArray ! 1)
                  else None)
               else Some (sampledStart, sampledTarget))
        in case chosen of
             None \<Rightarrow> Inl NotEnoughConnections
           | Some (start, targetP) \<Rightarrow>
               Inr \<lparr> startPerson = start, targetPerson = targetP,
                     revealedPeople = set_add targetP (set_add start []),
                     revealedConnections = [],
                     gameStarted = True, gameWon = False, gameLost = False,
                     attempts = 0, maxAttempts = 100,
                     timeStarted = now, timeElapsed = 0, score = 0 \<rparr>)"

text \<open>
  \<open>handleSearchWithName\<close>. The outcome names the branch taken: the early \<open>return\<close>
  (\<open>Ignored\<close>), the three messages given to \<open>setSearchError\<close>, and the reveal.
  \<open>spend_attempt\<close> is the update shared by the two failing branches. Successive
  \<open>setGameState\<close> updaters are composed in order.
\<close>

datatype guess_outcome = Ignored | NotFound | AlreadyRevealed | NoLinkToRevealed | Revealed

definition spend_attempt :: "GameState \<Rightarrow> GameState" where
  "spend_attempt gameState =
     (let newAttempts = attempts gameState + 1
      in if maxAttempts gameState \<le> newAttempts
         then gameState\<lparr>attempts := newAttempts, gameLost := True\<rparr>
         else gameState\<lparr>attempts := newAttempts\<rparr>)"

definition handleSearchWithName ::
  "Connection list \<Rightarrow> string \<Rightarrow> GameState \<Rightarrow> guess_outcome \<times> GameState" where
  "handleSearchWithName connections nameToSearch gameState =
     (if trim nameToSearch = '''' \<or> gameWon gameState \<or> gameLost gameState
      then (Ignored, gameState)
      else
        let searchName = trim nameToSearch;
            newAttempts = attempts gameState + 1
        in if searchName \<notin> set (allPeople connections)
             then (NotFound, spend_attempt gameState)
           else if searchName \<in> set (revealedPeople gameState)
             then (AlreadyRevealed, gameState)
           else if \<not> list_ex (\<lambda>revealedPerson.
                       areDirectlyConnected connections searchName revealedPerson)
                     (revealedPeople gameState)
             then (NoLinkToRevealed, spend_attempt gameState)
           else
             let newPeople = set_add searchName (revealedPeople gameState);
                 newConnections =
                   map (\<lambda>revealedPerson. \<lparr>source = searchName, target = revealedPerson\<rparr>)
                     (filter (\<lambda>revealedPerson.
                        areDirectlyConnected connections searchName revealedPerson)
                        (revealedPeople gameState));
                 updatedConnections = revealedConnections gameState @ newConnections;
                 updated = gameState\<lparr>revealedPeople := newPeople,
                                      revealedConnections := updatedConnections,
                                      attempts := newAttempts\<rparr>;
                 won = isGraphConnected updatedConnections
                         (startPerson gameState) (targetPerson gameState)
             in if won then
                  (let timeBonus = max 0 (300 - timeElapsed gameState div 1000);
                       attemptsBonus = max 0 ((maxAttempts gameState - newAttempts) * 50);
                       newScore = 1000 + timeBonus + attemptsBonus
                   in (Revealed, updated\<lparr>gameWon := True, score := newScore\<rparr>))
                else if maxAttempts gameState \<le> newAttempts
                  then (Revealed, updated\<lparr>gameLost := True\<rparr>)
                else (Revealed, updated))"

text \<open>
  The updater of the one-second timer. The page installs the timer while a game is in
  progress; here the updater may run at any time, which only enlarges the set of reachable
  sessions.
\<close>

definition tick :: "int \<Rightarrow> GameState \<Rightarrow> GameState" where
  "tick now gameState = gameState\<lparr>timeElapsed := now - timeStarted gameState\<rparr>"

text \<open>
  The sessions that can arise: a state set by \<open>startNewGame\<close>, followed by guesses and
  timer updates in any order.
\<close>

inductive reachable :: "Connection list \<Rightarrow> GameState \<Rightarrow> bool" for connections where
  started: "startNewGame connections loading random now = Inr gameState
              \<Longrightarrow> reachable connections gameState"
| guessed: "reachable connections gameState
              \<Longrightarrow> reachable connections (snd (handleSearchWithName connections nameToSearch gameState))"
| ticked: "reachable connections gameState \<Longrightarrow> reachable connections (tick now gameState)"

text \<open>Example data: the chain A - B - C - D.\<close>

definition edge :: "string \<Rightarrow> string \<Rightarrow> Connection" where
  "edge a b = \<lparr>conn_id = 0, name1 = a, name2 = b, status = ''accepted''\<rparr>"

definition chain :: "Connection list" where
  "chain = [edge ''A'' ''B'', edge ''B'' ''C'', edge ''C'' ''D'']"

section \<open>Example sessions on the chain\<close>

definition chain_start :: GameState where
  "chain_start = \<lparr> startPerson = ''A'', targetPerson = ''D'',
      revealedPeople = [''A'', ''D''], revealedConnections = [],
      gameStarted = True, gameWon = False, gameLost = False,
      attempts = 0, maxAttempts = 100, timeStarted = 0, timeElapsed = 0, score = 0 \<rparr>"

definition chain_after_B :: GameState where
  "chain_after_B = chain_start\<lparr> revealedPeople := [''A'', ''D'', ''B''],
      revealedConnections := [\<lparr>source = ''B'', target = ''A''\<rparr>], attempts := 1 \<rparr>"

definition chain_won :: GameState where
  "chain_won = chain_after_B\<lparr> revealedPeople := [''A'', ''D'', ''B'', ''C''],
      revealedConnections := [\<lparr>source = ''B'', target = ''A''\<rparr>,
        \<lparr>source = ''C'', target = ''D''\<rparr>, \<lparr>source = ''C'', target = ''B''\<rparr>],
      attempts := 2, gameWon := True, score := 6200 \<rparr>"

definition pick_A_D :: "nat \<Rightarrow> rat" where
  "pick_A_D i = (if i = 0 then 0 else 3 / 4)"

lemma allPeople_chain: "allPeople chain = [''A'', ''B'', ''C'', ''D'']"
  by (simp add: allPeople_def chain_def edge_def set_add_def)

lemma findShortestPath_chain_A_D:
  "findShortestPath chain ''A'' ''D'' = Some [''A'', ''B'', ''C'', ''D'']"
  by (simp add: findShortestPath_def chain_def edge_def getConnections_def)

lemma findShortestPath_chain_E_A: "findShortestPath chain ''E'' ''A'' = None"
  by (simp add: findShortestPath_def chain_def edge_def getConnections_def)

lemma not_connected_chain_A_D: "\<not> areDirectlyConnected chain ''A'' ''D''"
  by (simp add: areDirectlyConnected_def chain_def edge_def)

lemma sample_loop_chain: "sample_loop chain [''A'', ''B'', ''C'', ''D''] pick_A_D 0 = (''A'', ''D'')"
  by (simp add: sample_loop.simps[of _ _ _ 0] pick_A_D_def random_index_def acceptable_def
      findShortestPath_chain_A_D not_connected_chain_A_D)

lemma startNewGame_chain: "startNewGame chain False pick_A_D 0 = Inr chain_start"
  by (simp add: startNewGame_def allPeople_chain sample_loop_chain chain_start_def set_add_def)
    (simp add: chain_def)

lemma guess_B: "handleSearchWithName chain ''B'' chain_start = (Revealed, chain_after_B)"
  by (simp add: handleSearchWithName_def allPeople_chain chain_start_def chain_after_B_def
      trim_def is_space_def set_add_def isGraphConnected_def Let_def)
    (simp add: areDirectlyConnected_def chain_def edge_def)

lemma guess_C: "handleSearchWithName chain ''C'' chain_after_B = (Revealed, chain_won)"
  by (simp add: handleSearchWithName_def allPeople_chain chain_start_def chain_after_B_def chain_won_def
      trim_def is_space_def set_add_def isGraphConnected_def Let_def)
    (simp add: areDirectlyConnected_def chain_def edge_def)

section \<open>The branches of the guess handler\<close>

definition reveal :: "Connection list \<Rightarrow> string \<Rightarrow> GameState \<Rightarrow> GameState" where
  "reveal connections searchName gameState =
     (let updatedConnections = revealedConnections gameState @
            map (\<lambda>revealedPerson. \<lparr>source = searchName, target = revealedPerson\<rparr>)
              (filter (\<lambda>revealedPerson. areDirectlyConnected connections searchName revealedPerson)
                 (revealedPeople gameState));
          updated = gameState\<lparr>revealedPeople := set_add searchName (revealedPeople gameState),
                               revealedConnections := updatedConnections,
                               attempts := attempts gameState + 1\<rparr>
      in if isGraphConnected updatedConnections (startPerson gameState) (targetPerson gameState)
         then updated\<lparr>gameWon := True,
                score := 1000 + max 0 (300 - timeElapsed gameState div 1000)
                         + max 0 ((maxAttempts gameState - (attempts gameState + 1)) * 50)\<rparr>
         else if maxAttempts gameState \<le> attempts gameState + 1
           then updated\<lparr>gameLost := True\<rparr>
         else updated)"

definition active :: "string \<Rightarrow> GameState \<Rightarrow> bool" where
  "active nameToSearch gameState \<longleftrightarrow>
     trim nameToSearch \<noteq> [] \<and> \<not> gameWon gameState \<and> \<not> gameLost gameState"

lemma handle_Ignored:
  "\<not> active n gs \<Longrightarrow> handleSearchWithName cs n gs = (Ignored, gs)"
  by (auto simp add: handleSearchWithName_def active_def)

lemma handle_NotFound:
  "active n gs \<Longrightarrow> trim n \<notin> set (allPeople cs) \<Longrightarrow>
     handleSearchWithName cs n gs = (NotFound, spend_attempt gs)"
  by (simp add: handleSearchWithName_def active_def)

lemma handle_AlreadyRevealed:
  "active n gs \<Longrightarrow> trim n \<in> set (allPeople cs) \<Longrightarrow> trim n \<in> set (revealedPeople gs) \<Longrightarrow>
     handleSearchWithName cs n gs = (AlreadyRevealed, gs)"
  by (simp add: handleSearchWithName_def active_def)

lemma handle_NoLinkToRevealed:
  "active n gs \<Longrightarrow> trim n \<in> set (allPeople cs) \<Longrightarrow> trim n \<notin> set (revealedPeople gs) \<Longrightarrow>
   \<not> list_ex (areDirectlyConnected cs (trim n)) (revealedPeople gs) \<Longrightarrow>
     handleSearchWithName cs n gs = (NoLinkToRevealed, spend_attempt gs)"
  by (simp add: handleSearchWithName_def active_def)

lemma handle_Revealed:
  "active n gs \<Longrightarrow> trim n \<in> set (allPeople cs) \<Longrightarrow> trim n \<notin> set (revealedPeople gs) \<Longrightarrow>
   list_ex (areDirectlyConnected cs (trim n)) (revealedPeople gs) \<Longrightarrow>
     handleSearchWithName cs n gs = (Revealed, reveal cs (trim n) gs)"
  by (simp add: handleSearchWithName_def active_def reveal_def Let_def)

lemma handle_cases:
  obtains
    (Ignored) "\<not> active n gs" "handleSearchWithName cs n gs = (Ignored, gs)"
  | (NotFound) "active n gs" "trim n \<notin> set (allPeople cs)"
      "handleSearchWithName cs n gs = (NotFound, spend_attempt gs)"
  | (AlreadyRevealed) "active n gs" "trim n \<in> set (allPeople cs)"
      "trim n \<in> set (revealedPeople gs)" "handleSearchWithName cs n gs = (AlreadyRevealed, gs)"
  | (NoLinkToRevealed) "active n gs" "trim n \<in> set (allPeople cs)"
      "trim n \<notin> set (revealedPeople gs)"
      "\<not> list_ex (areDirectlyConnected cs (trim n)) (revealedPeople gs)"
      "handleSearchWithName cs n gs = (NoLinkToRevealed, spend_attempt gs)"
  | (Revealed) "active n gs" "trim n \<in> set (allPeople cs)"
      "trim n \<notin> set (revealedPeople gs)"
      "list_ex (areDirectlyConnected cs (trim n)) (revealedPeople gs)"
      "handleSearchWithName cs n gs = (Revealed, reveal cs (trim n) gs)"
  using handle_Ignored handle_NotFound handle_AlreadyRevealed handle_NoLinkToRevealed
    handle_Revealed by blast

lemma startNewGame_Inr:
  assumes "startNewGame cs loading random now = Inr gs"
  obtains s t where
    "gs = \<lparr> startPerson = s, targetPerson = t,
            revealedPeople = set_add t (set_add s []), revealedConnections = [],
            gameStarted = True, gameWon = False, gameLost = False,
            attempts = 0, maxAttempts = 100, timeStarted = now, timeElapsed = 0, score = 0 \<rparr>"
    "cs \<noteq> []" "\<not> loading"
    "sample_loop cs (allPeople cs) random 0 = (s, t) \<and> s \<noteq> [] \<and> t \<noteq> [] \<or>
     (fst (sample_loop cs (allPeople cs) random 0) = [] \<or>
      snd (sample_loop cs (allPeople cs) random 0) = []) \<and>
     2 \<le> length (allPeople cs) \<and> s = allPeople cs ! 0 \<and> t = allPeople cs ! 1"
proof -
  obtain a b where ab: "sample_loop cs (allPeople cs) random 0 = (a, b)"
    by (cases "sample_loop cs (allPeople cs) random 0") auto
  from assms have ready: "cs \<noteq> []" "\<not> loading"
    by (auto simp: startNewGame_def split: if_splits)
  show ?thesis
  proof (cases "a = [] \<or> b = []")
    case True
    with assms ab ready have "2 \<le> length (allPeople cs)"
      by (auto simp: startNewGame_def Let_def split: if_splits)
    with assms ab ready True show ?thesis
      by (intro that[of "allPeople cs ! 0" "allPeople cs ! 1"])
         (auto simp: startNewGame_def Let_def split: if_splits)
  next
    case False
    with assms ab ready show ?thesis
      by (intro that[of a b]) (auto simp: startNewGame_def Let_def split: if_splits)
  qed
qed

section \<open>Invariants of a session\<close>

text \<open>
  What every reachable session satisfies; the last three lines tie the flags to the
  counters and to the search on the revealed links.
\<close>

definition session_inv :: "Connection list \<Rightarrow> GameState \<Rightarrow> bool" where
  "session_inv cs gs \<longleftrightarrow>
     (\<forall>l\<in>set (revealedConnections gs).
        areDirectlyConnected cs (source l) (target l) \<and>
        source l \<in> set (revealedPeople gs) \<and> target l \<in> set (revealedPeople gs)) \<and>
     set (revealedPeople gs) \<subseteq> people_of cs \<and>
     startPerson gs \<in> set (revealedPeople gs) \<and> targetPerson gs \<in> set (revealedPeople gs) \<and>
     gameStarted gs \<and> maxAttempts gs = 100 \<and> 0 \<le> attempts gs \<and> attempts gs \<le> 100 \<and>
     (\<not> gameWon gs \<and> \<not> gameLost gs \<longrightarrow> attempts gs < 100) \<and>
     gameWon gs = isGraphConnected (revealedConnections gs) (startPerson gs) (targetPerson gs) \<and>
     (gameLost gs \<longrightarrow> attempts gs = 100 \<and> \<not> gameWon gs)"

lemma set_set_add: "set (set_add x xs) = insert x (set xs)"
  by (auto simp: set_add_def)

lemma set_foldl_people:
  "set (foldl (\<lambda>acc conn. set_add (name2 conn) (set_add (name1 conn) acc)) acc cs) =
     set acc \<union> people_of cs"
  by (induction cs arbitrary: acc) (auto simp: people_of_def set_set_add)

lemma set_allPeople: "set (allPeople cs) = people_of cs"
  by (simp add: allPeople_def set_foldl_people)

lemma adjacent_people:
  "areDirectlyConnected cs u v \<Longrightarrow> u \<in> people_of cs \<and> v \<in> people_of cs"
  by (auto simp: areDirectlyConnected_def people_of_def list_ex_iff)

lemma path_ends_people:
  assumes "path_between (areDirectlyConnected cs) s t p" "2 \<le> length p"
  shows "s \<in> people_of cs \<and> t \<in> people_of cs"
proof -
  from assms obtain x y r where p: "p = x # y # r"
    by (cases p; cases "tl p") auto
  with assms(1) have "areDirectlyConnected cs s y"
    by (auto simp: path_between_def)
  then have s: "s \<in> people_of cs" by (simp add: adjacent_people)
  from assms obtain q z where q: "p = q @ [z]" "q \<noteq> []"
    by (cases p rule: rev_cases; cases "butlast p") auto
  from path_between_snocD[OF assms(1)[unfolded q(1)] q(2)]
  have "areDirectlyConnected cs (last q) t" by simp
  then have "t \<in> people_of cs" by (simp add: adjacent_people)
  with s show ?thesis by simp
qed

lemma acceptable_people:
  assumes "acceptable cs s t"
  shows "s \<in> people_of cs \<and> t \<in> people_of cs"
proof -
  from assms obtain p where p: "findShortestPath cs s t = Some p" "3 \<le> length p"
    by (auto simp: acceptable_def split: option.splits)
  with findShortestPath_result[of cs s t]
  have "path_between (areDirectlyConnected cs) s t p" by (simp add: shortest_result_def)
  from path_ends_people[OF this] p(2) show ?thesis by simp
qed

lemma sample_loop_accepted:
  "sample_loop cs people random k = (s, t) \<Longrightarrow> (s = [] \<and> t = []) \<or> acceptable cs s t"
proof (induction cs people random k rule: sample_loop.induct)
  case (1 cs people random k)
  show ?case
  proof (cases "k < 100 \<and> 2 \<le> length people")
    case False
    with 1(2) show ?thesis by (simp add: sample_loop.simps[of cs people random k])
  next
    case True
    let ?a = "people ! random_index (random (2 * k)) (length people)"
    let ?b = "people ! random_index (random (2 * k + 1)) (length people)"
    show ?thesis
    proof (cases "acceptable cs ?a ?b")
      case acc: True
      with True 1(2) have "s = ?a" "t = ?b"
        by (simp_all add: sample_loop.simps[of cs people random k] Let_def)
      with acc show ?thesis by simp
    next
      case rej: False
      with True 1(2) have "sample_loop cs people random (k + 1) = (s, t)"
        by (simp add: sample_loop.simps[of cs people random k] Let_def)
      from 1(1)[OF True refl refl rej this] show ?thesis .
    qed
  qed
qed

lemma inv_start:
  assumes "startNewGame cs loading random now = Inr gs"
  shows "session_inv cs gs"
proof -
  from assms obtain s t where gs: "gs = \<lparr> startPerson = s, targetPerson = t,
            revealedPeople = set_add t (set_add s []), revealedConnections = [],
            gameStarted = True, gameWon = False, gameLost = False,
            attempts = 0, maxAttempts = 100, timeStarted = now, timeElapsed = 0, score = 0 \<rparr>"
    and how: "sample_loop cs (allPeople cs) random 0 = (s, t) \<and> s \<noteq> [] \<and> t \<noteq> [] \<or>
     (fst (sample_loop cs (allPeople cs) random 0) = [] \<or>
      snd (sample_loop cs (allPeople cs) random 0) = []) \<and>
     2 \<le> length (allPeople cs) \<and> s = allPeople cs ! 0 \<and> t = allPeople cs ! 1"
    by (rule startNewGame_Inr)
  have "s \<in> people_of cs \<and> t \<in> people_of cs"
  proof (cases "sample_loop cs (allPeople cs) random 0 = (s, t) \<and> s \<noteq> [] \<and> t \<noteq> []")
    case True
    with sample_loop_accepted[of cs "allPeople cs" random 0 s t] have "acceptable cs s t" by simp
    then show ?thesis by (rule acceptable_people)
  next
    case False
    with how have "2 \<le> length (allPeople cs)" "s = allPeople cs ! 0" "t = allPeople cs ! 1"
      by auto
    then have "s \<in> set (allPeople cs)" "t \<in> set (allPeople cs)"
      by (auto intro!: nth_mem)
    then show ?thesis by (simp add: set_allPeople)
  qed
  then show ?thesis
    by (simp add: gs session_inv_def set_set_add isGraphConnected_def)
qed

lemma inv_spend:
  assumes "session_inv cs gs" "\<not> gameWon gs" "\<not> gameLost gs"
  shows "session_inv cs (spend_attempt gs)"
  using assms by (simp add: session_inv_def spend_attempt_def Let_def)

lemma inv_reveal:
  assumes inv: "session_inv cs gs" and act: "\<not> gameWon gs" "\<not> gameLost gs"
    and n: "n \<in> people_of cs"
  shows "session_inv cs (reveal cs n gs)"
proof -
  let ?new = "map (\<lambda>revealedPerson. \<lparr>source = n, target = revealedPerson\<rparr>)
               (filter (\<lambda>revealedPerson. areDirectlyConnected cs n revealedPerson)
                  (revealedPeople gs))"
  let ?links = "revealedConnections gs @ ?new"
  let ?people = "set_add n (revealedPeople gs)"
  have links: "\<forall>l\<in>set ?links. areDirectlyConnected cs (source l) (target l) \<and>
                 source l \<in> set ?people \<and> target l \<in> set ?people"
    using inv by (auto simp: session_inv_def set_set_add)
  have people: "set ?people \<subseteq> people_of cs"
    using inv n by (auto simp: session_inv_def set_set_add)
  have ends: "startPerson gs \<in> set ?people" "targetPerson gs \<in> set ?people"
    using inv by (auto simp: session_inv_def set_set_add)
  have nums: "gameStarted gs" "maxAttempts gs = 100" "0 \<le> attempts gs" "attempts gs < 100"
    using inv act by (auto simp: session_inv_def)
  show ?thesis
    using links people ends nums act
    by (simp add: session_inv_def reveal_def Let_def)
qed

lemma inv_tick: "session_inv cs gs \<Longrightarrow> session_inv cs (tick now gs)"
  by (auto simp: session_inv_def tick_def)

lemma inv_guess:
  assumes inv: "session_inv cs gs"
  shows "session_inv cs (snd (handleSearchWithName cs n gs))"
proof (cases rule: handle_cases[of n gs cs])
  case Ignored
  with inv show ?thesis by simp
next
  case NotFound
  with inv inv_spend[of cs gs] show ?thesis by (simp add: active_def)
next
  case AlreadyRevealed
  with inv show ?thesis by simp
next
  case NoLinkToRevealed
  with inv inv_spend[of cs gs] show ?thesis by (simp add: active_def)
next
  case Revealed
  with inv inv_reveal[of cs gs "trim n"] show ?thesis by (simp add: active_def set_allPeople)
qed

lemma reachable_inv: "reachable cs gs \<Longrightarrow> session_inv cs gs"
  by (induction rule: reachable.induct) (simp_all add: inv_start inv_guess inv_tick)

section \<open>Names as the form stores them\<close>

text \<open>
  The only insert into the table of connections is the one of \<open>handleSubmit\<close> in
  src/components/AddConnection.tsx: it stores both names trimmed, with the status pending
  and an identifier the table generates. \<open>names_trimmed\<close> says that every name of an
  edge list is its own trimmed form; every row stored by the form is such a row. The table
  itself accepts any text: the insert policy of the migrations lets every authenticated
  client insert with the check \<open>true\<close>, and the rows older than the status column are
  kept as accepted. A row written past the form can therefore hold a padded name.
\<close>

definition submitted_connection :: "int \<Rightarrow> string \<Rightarrow> string \<Rightarrow> Connection" where
  "submitted_connection new_id person1Name person2Name =
     \<lparr>conn_id = new_id, name1 = trim person1Name, name2 = trim person2Name,
      status = ''pending''\<rparr>"

definition names_trimmed :: "Connection list \<Rightarrow> bool" where
  "names_trimmed connections =
     list_all (\<lambda>conn. trim (name1 conn) = name1 conn \<and> trim (name2 conn) = name2 conn)
       connections"

lemma dropWhile_stripped:
  assumes "t = [] \<or> \<not> P (hd t)"
  shows "dropWhile P (rev (dropWhile P (rev t))) = rev (dropWhile P (rev t))"
proof (cases "rev (dropWhile P (rev t))")
  case Nil
  show ?thesis by (simp only: Nil dropWhile.simps)
next
  case (Cons a as)
  have "rev t = takeWhile P (rev t) @ dropWhile P (rev t)" by simp
  then have "rev (rev t) = rev (takeWhile P (rev t) @ dropWhile P (rev t))"
    by (rule arg_cong)
  then have "t = rev (dropWhile P (rev t)) @ rev (takeWhile P (rev t))"
    by (simp only: rev_rev_ident rev_append)
  then have "t = (a # as) @ rev (takeWhile P (rev t))" by (simp only: Cons)
  then have "t \<noteq> []" "hd t = a" by (metis append_is_Nil_conv list.distinct(1), metis hd_append2 list.sel(1) list.distinct(1))
  with assms have "\<not> P a" by simp
  then have "dropWhile P (a # as) = a # as" by simp
  then show ?thesis by (simp only: Cons)
qed

lemma trim_idem: "trim (trim s) = trim s"
proof -
  let ?t = "dropWhile is_space s"
  have t: "?t = [] \<or> \<not> is_space (hd ?t)" by (metis hd_dropWhile)
  have "trim (trim s) =
      rev (dropWhile is_space (rev (dropWhile is_space (rev (dropWhile is_space (rev ?t))))))"
    by (simp only: trim_def)
  also have "\<dots> = rev (dropWhile is_space (rev (rev (dropWhile is_space (rev ?t)))))"
    using dropWhile_stripped[of "dropWhile is_space s" is_space] t by simp
  also have "\<dots> = rev (dropWhile is_space (rev ?t))"
    by (simp only: rev_rev_ident dropWhile_idem)
  finally show ?thesis by (simp only: trim_def)
qed

lemma submitted_names_trimmed:
  "names_trimmed [submitted_connection new_id person1Name person2Name]"
  by (simp add: names_trimmed_def submitted_connection_def trim_idem)

lemma names_trimmed_chain: "names_trimmed chain"
  by (simp add: names_trimmed_def chain_def edge_def trim_def is_space_def)

lemma names_trimmed_people:
  "names_trimmed cs \<Longrightarrow> m \<in> people_of cs \<Longrightarrow> trim m = m"
  by (auto simp: names_trimmed_def people_of_def list_all_iff)

section \<open>Sessions started by the fallback\<close>

text \<open>
  A random source that always returns 0, and the sessions it starts: both draws of a round
  hit the same person, so the sampling loop accepts nothing and the fallback decides.
\<close>

definition always_zero :: "nat \<Rightarrow> rat" where
  "always_zero i = 0"

definition zero_start :: GameState where
  "zero_start = \<lparr> startPerson = ''A'', targetPerson = ''B'',
      revealedPeople = [''A'', ''B''], revealedConnections = [],
      gameStarted = True, gameWon = False, gameLost = False,
      attempts = 0, maxAttempts = 100, timeStarted = 0, timeElapsed = 0, score = 0 \<rparr>"

definition padded :: "Connection list" where
  "padded = [edge '' A'' ''B'']"

definition padded_start :: GameState where
  "padded_start = \<lparr> startPerson = '' A'', targetPerson = ''B'',
      revealedPeople = ['' A'', ''B''], revealedConnections = [],
      gameStarted = True, gameWon = False, gameLost = False,
      attempts = 0, maxAttempts = 100, timeStarted = 0, timeElapsed = 0, score = 0 \<rparr>"



lemma sample_loop_always_zero: "sample_loop cs people always_zero k = ([], [])"
proof (induction cs people always_zero k rule: sample_loop.induct)
  case (1 cs people k)
  show ?case
  proof (cases "k < 100 \<and> 2 \<le> length people")
    case False
    then show ?thesis by (subst sample_loop.simps) auto
  next
    case True
    have rej: "\<not> acceptable cs (people ! random_index (always_zero (2 * k)) (length people))
                 (people ! random_index (always_zero (2 * k + 1)) (length people))"
      by (simp add: acceptable_def always_zero_def)
    from 1[OF True refl refl rej] True rej show ?thesis
      by (simp add: sample_loop.simps[of cs people always_zero k] Let_def)
  qed
qed

lemma startNewGame_chain_zero: "startNewGame chain False always_zero 0 = Inr zero_start"
  by (simp add: startNewGame_def allPeople_chain sample_loop_always_zero zero_start_def set_add_def)
    (simp add: chain_def)

lemma allPeople_padded: "allPeople padded = ['' A'', ''B'']"
  by (simp add: allPeople_def padded_def edge_def set_add_def)

lemma startNewGame_padded: "startNewGame padded False always_zero 0 = Inr padded_start"
  by (simp add: startNewGame_def allPeople_padded sample_loop_always_zero padded_start_def set_add_def)
    (simp add: padded_def)



lemma reachable_chain_start: "reachable chain chain_start"
  using reachable.started[OF startNewGame_chain] .

lemma reachable_chain_after_B: "reachable chain chain_after_B"
  using reachable.guessed[OF reachable_chain_start, of "''B''"] by (simp add: guess_B)

lemma reachable_chain_won: "reachable chain chain_won"
  using reachable.guessed[OF reachable_chain_after_B, of "''C''"] by (simp add: guess_C)

lemma revealedPeople_reveal:
  "revealedPeople (reveal cs m gs) = set_add m (revealedPeople gs)"
  by (simp add: reveal_def Let_def)

lemma trim_plain: "trim ''B'' = ''B''" "trim ''Zed'' = ''Zed''" "trim ''alice'' = ''alice''"
  "trim ''Alice'' = ''Alice''" "trim '' A'' = ''A''" "trim ''C '' = ''C''"
  by (simp_all add: trim_def is_space_def)





lemma trimmed_guess_revealed:
  assumes "reachable cs gs" and "trim n \<in> set (revealedPeople gs)"
  shows "handleSearchWithName cs n gs =
           (if active n gs then AlreadyRevealed else Ignored, gs)"
proof -
  from assms(1) have "session_inv cs gs" by (rule reachable_inv)
  with assms(2) have known: "trim n \<in> set (allPeople cs)"
    by (auto simp: session_inv_def set_allPeople)
  show ?thesis
  proof (cases "active n gs")
    case True
    from handle_AlreadyRevealed[OF True known assms(2)] True show ?thesis by simp
  next
    case False
    then show ?thesis by (simp add: handle_Ignored)
  qed
qed

text \<open>
  On names stored as the form stores them, a guess of a revealed name is free: in every
  reachable session it leaves the session unchanged and, while the game is in progress, is
  reported as already revealed; and a guess that has revealed a name changes nothing when
  it is made again.
\<close>

lemma revealed_guess_free_on_trimmed:
  "(reachable connections gameState \<and> names_trimmed connections \<and>
    nameToSearch \<in> set (revealedPeople gameState) \<longrightarrow>
      snd (handleSearchWithName connections nameToSearch gameState) = gameState \<and>
      (\<not> gameWon gameState \<and> \<not> gameLost gameState \<and> nameToSearch \<noteq> [] \<longrightarrow>
         fst (handleSearchWithName connections nameToSearch gameState) = AlreadyRevealed)) \<and>
   (handleSearchWithName connections nameToSearch gameState = (Revealed, gameState') \<longrightarrow>
      snd (handleSearchWithName connections nameToSearch gameState') = gameState' \<and>
      attempts (snd (handleSearchWithName connections nameToSearch gameState')) =
        attempts gameState')"
proof (intro conjI impI)
  assume h: "reachable connections gameState \<and> names_trimmed connections \<and>
    nameToSearch \<in> set (revealedPeople gameState)"
  then have "session_inv connections gameState" by (simp add: reachable_inv)
  with h have "nameToSearch \<in> people_of connections" by (auto simp: session_inv_def)
  with h have same: "trim nameToSearch = nameToSearch"
    using names_trimmed_people[of connections nameToSearch] by blast
  with h have shown: "trim nameToSearch \<in> set (revealedPeople gameState)" by simp
  from trimmed_guess_revealed[OF _ shown] h
  have r: "handleSearchWithName connections nameToSearch gameState =
           (if active nameToSearch gameState then AlreadyRevealed else Ignored, gameState)"
    by simp
  then show "snd (handleSearchWithName connections nameToSearch gameState) = gameState"
    by simp
  assume "\<not> gameWon gameState \<and> \<not> gameLost gameState \<and> nameToSearch \<noteq> []"
  with same have "active nameToSearch gameState" by (simp add: active_def)
  with r show "fst (handleSearchWithName connections nameToSearch gameState) = AlreadyRevealed"
    by simp
next
  assume r: "handleSearchWithName connections nameToSearch gameState = (Revealed, gameState')"
  have facts: "trim nameToSearch \<noteq> [] \<and> trim nameToSearch \<in> set (allPeople connections) \<and>
        gameState' = reveal connections (trim nameToSearch) gameState"
    using r by (cases rule: handle_cases[of nameToSearch gameState connections])
               (simp_all add: active_def)
  then have shown: "trim nameToSearch \<in> set (revealedPeople gameState')"
    by (simp add: revealedPeople_reveal set_set_add)
  have same: "snd (handleSearchWithName connections nameToSearch gameState') = gameState'"
  proof (cases "active nameToSearch gameState'")
    case True
    from handle_AlreadyRevealed[OF True _ shown] facts show ?thesis by simp
  next
    case False
    then show ?thesis by (simp add: handle_Ignored)
  qed
  then show "snd (handleSearchWithName connections nameToSearch gameState') = gameState'" .
  from same show "attempts (snd (handleSearchWithName connections nameToSearch gameState')) =
        attempts gameState'" by simp
qed


section \<open>Definitions used to state the claims\<close>

text \<open>
  The full edge list as links, for comparing the two searches: the link of a connection has
  \<open>name1\<close> as source and \<open>name2\<close> as target.
\<close>

definition edgesOf :: "Connection list \<Rightarrow> Link list" where
  "edgesOf connections = map (\<lambda>conn. \<lparr>source = name1 conn, target = name2 conn\<rparr>) connections"

text \<open>
  The score as the specification words it (section 4.5): base 1000, a time bonus and an
  attempts bonus, each at least 0. It is compared below with the score the handler computes.
\<close>

definition computeScore :: "int \<Rightarrow> int \<Rightarrow> int \<Rightarrow> int" where
  "computeScore elapsedMs attemptsUsed maxAttemptsAllowed =
     (let base = 1000;
          timeBonus = max 0 (300 - elapsedMs div 1000);
          attemptsBonus = max 0 ((maxAttemptsAllowed - attemptsUsed) * 50)
      in base + timeBonus + attemptsBonus)"

lemma linked_edgesOf: "linked (edgesOf connections) = areDirectlyConnected connections"
  by (auto simp: fun_eq_iff linked_def edgesOf_def areDirectlyConnected_def list_ex_iff)

lemma path_chain_A_D:
  "path_between (areDirectlyConnected chain) ''A'' ''D'' [''A'', ''B'', ''C'', ''D'']"
  by (simp add: path_between_def areDirectlyConnected_def chain_def edge_def)


section \<open>Claims\<close>

text \<open>
  C1: for every edge list and every start and target, \<open>findShortestPath\<close> returns a
  list of names that begins at start, ends at target and has consecutive elements directly
  connected, and no path from start to target is shorter; it returns null exactly when no
  path exists, and \<open>[start]\<close> when start and target are the same.
\<close>

theorem findShortestPath_shortest:
  "(case findShortestPath connections start goal of
      None \<Rightarrow> \<not> (\<exists>p. path_between (areDirectlyConnected connections) start goal p)
    | Some found \<Rightarrow>
        found \<noteq> [] \<and> hd found = start \<and> last found = goal \<and>
        successively (areDirectlyConnected connections) found \<and>
        (\<forall>p. path_between (areDirectlyConnected connections) start goal p
           \<longrightarrow> length found \<le> length p))
   \<and> findShortestPath connections start start = Some [start]"
proof
  show "case findShortestPath connections start goal of
      None \<Rightarrow> \<not> (\<exists>p. path_between (areDirectlyConnected connections) start goal p)
    | Some found \<Rightarrow>
        found \<noteq> [] \<and> hd found = start \<and> last found = goal \<and>
        successively (areDirectlyConnected connections) found \<and>
        (\<forall>p. path_between (areDirectlyConnected connections) start goal p
           \<longrightarrow> length found \<le> length p)"
    using findShortestPath_result[of connections start goal]
    by (cases "findShortestPath connections start goal")
       (simp_all add: shortest_result_def, simp add: path_between_def)
  show "findShortestPath connections start start = Some [start]"
    by (simp add: findShortestPath_def)
qed

theorem findShortestPath_shortest_witness:
  "findShortestPath chain ''A'' ''D'' = Some [''A'', ''B'', ''C'', ''D''] \<and>
   path_between (areDirectlyConnected chain) ''A'' ''D'' [''A'', ''B'', ''C'', ''D''] \<and>
   \<not> (\<exists>p. path_between (areDirectlyConnected chain) ''A'' ''D'' p \<and> length p < 4) \<and>
   findShortestPath chain ''E'' ''A'' = None \<and>
   \<not> (\<exists>p. path_between (areDirectlyConnected chain) ''E'' ''A'' p)"
proof -
  have "\<forall>p. path_between (areDirectlyConnected chain) ''A'' ''D'' p
          \<longrightarrow> length [''A'', ''B'', ''C'', ''D''] \<le> length p"
    using findShortestPath_shortest[of chain "''A''" "''D''"]
    by (simp only: findShortestPath_chain_A_D option.case) blast
  then have "\<not> (\<exists>p. path_between (areDirectlyConnected chain) ''A'' ''D'' p \<and> length p < 4)"
    by fastforce
  moreover have "\<not> (\<exists>p. path_between (areDirectlyConnected chain) ''E'' ''A'' p)"
    using findShortestPath_shortest[of chain "''E''" "''A''"]
    by (simp only: findShortestPath_chain_E_A option.case) blast
  ultimately show ?thesis
    using findShortestPath_chain_A_D findShortestPath_chain_E_A path_chain_A_D by blast
qed

text \<open>
  C2 as stated fails on the chain A - B - C - D: the pair (A, D) qualifies, yet when every
  round of the sampling loop draws the same person the loop accepts nothing and the fallback
  returns the first two people, A and B, which are directly connected.
\<close>

theorem fallback_pair_counterexample:
  "acceptable chain ''A'' ''D'' \<and>
   startNewGame chain False always_zero 0 = Inr zero_start \<and>
   areDirectlyConnected chain (startPerson zero_start) (targetPerson zero_start)"
proof -
  have "acceptable chain ''A'' ''D''"
    by (simp add: acceptable_def findShortestPath_chain_A_D not_connected_chain_A_D)
  moreover have "areDirectlyConnected chain (startPerson zero_start) (targetPerson zero_start)"
    by (simp add: zero_start_def areDirectlyConnected_def chain_def edge_def)
  ultimately show ?thesis using startNewGame_chain_zero by simp
qed

text \<open>
  C2, amended: a pair accepted by the sampling loop (both names non-empty) is the pair of the
  new session; its names differ, are not directly connected, and their shortest path has
  between 3 and 6 names. Otherwise the session starts with the first two people in
  enumeration order, which may be directly connected.
\<close>

theorem startNewGame_pair:
  assumes "startNewGame connections loading random now = Inr gameState"
    and "sample_loop connections (allPeople connections) random 0 = (sampledStart, sampledTarget)"
  shows "if sampledStart \<noteq> [] \<and> sampledTarget \<noteq> []
         then startPerson gameState = sampledStart \<and> targetPerson gameState = sampledTarget \<and>
              sampledStart \<noteq> sampledTarget \<and>
              \<not> areDirectlyConnected connections (startPerson gameState) (targetPerson gameState) \<and>
              (\<exists>path. findShortestPath connections sampledStart sampledTarget = Some path \<and>
                      3 \<le> length path \<and> length path \<le> 6)
         else 2 \<le> length (allPeople connections) \<and>
              startPerson gameState = allPeople connections ! 0 \<and>
              targetPerson gameState = allPeople connections ! 1"
proof -
  from assms(1) obtain s t where gs: "gameState = \<lparr> startPerson = s, targetPerson = t,
            revealedPeople = set_add t (set_add s []), revealedConnections = [],
            gameStarted = True, gameWon = False, gameLost = False,
            attempts = 0, maxAttempts = 100, timeStarted = now, timeElapsed = 0, score = 0 \<rparr>"
    and how: "sample_loop connections (allPeople connections) random 0 = (s, t) \<and> s \<noteq> [] \<and> t \<noteq> [] \<or>
     (fst (sample_loop connections (allPeople connections) random 0) = [] \<or>
      snd (sample_loop connections (allPeople connections) random 0) = []) \<and>
     2 \<le> length (allPeople connections) \<and> s = allPeople connections ! 0 \<and>
     t = allPeople connections ! 1"
    by (rule startNewGame_Inr)
  show ?thesis
  proof (cases "sampledStart \<noteq> [] \<and> sampledTarget \<noteq> []")
    case True
    with how assms(2) have st: "s = sampledStart" "t = sampledTarget" by auto
    from sample_loop_accepted[OF assms(2)] True
    have "acceptable connections sampledStart sampledTarget" by simp
    then have "sampledStart \<noteq> sampledTarget"
      "\<not> areDirectlyConnected connections sampledStart sampledTarget"
      "\<exists>path. findShortestPath connections sampledStart sampledTarget = Some path \<and>
                      3 \<le> length path \<and> length path \<le> 6"
      by (auto simp: acceptable_def split: option.splits)
    with True st show ?thesis by (simp add: gs)
  next
    case False
    with how assms(2) have "2 \<le> length (allPeople connections)"
      "s = allPeople connections ! 0" "t = allPeople connections ! 1" by auto
    with False show ?thesis by (auto simp: gs)
  qed
qed

theorem startNewGame_pair_witness:
  "startNewGame chain False pick_A_D 0 = Inr chain_start \<and>
   sample_loop chain (allPeople chain) pick_A_D 0 = (''A'', ''D'') \<and>
   startPerson chain_start = ''A'' \<and> targetPerson chain_start = ''D'' \<and>
   \<not> areDirectlyConnected chain (startPerson chain_start) (targetPerson chain_start) \<and>
   startNewGame chain False always_zero 0 = Inr zero_start \<and>
   sample_loop chain (allPeople chain) always_zero 0 = ([], []) \<and>
   startPerson zero_start = allPeople chain ! 0 \<and> targetPerson zero_start = allPeople chain ! 1"
proof -
  have s1: "sample_loop chain (allPeople chain) pick_A_D 0 = (''A'', ''D'')"
    by (simp add: allPeople_chain sample_loop_chain)
  have s2: "sample_loop chain (allPeople chain) always_zero 0 = ([], [])"
    by (rule sample_loop_always_zero)
  from startNewGame_pair[OF startNewGame_chain s1]
  have "startPerson chain_start = ''A'' \<and> targetPerson chain_start = ''D'' \<and>
   \<not> areDirectlyConnected chain (startPerson chain_start) (targetPerson chain_start)"
    by auto
  moreover from startNewGame_pair[OF startNewGame_chain_zero s2]
  have "startPerson zero_start = allPeople chain ! 0 \<and> targetPerson zero_start = allPeople chain ! 1"
    by simp
  ultimately show ?thesis
    using startNewGame_chain startNewGame_chain_zero s1 s2 by blast
qed

text \<open>
  C3 as stated fails on the empty edge list with equal start and target:
  \<open>findShortestPath\<close> returns the one-element path while \<open>isGraphConnected\<close> returns false.
\<close>

theorem null_path_counterexample:
  "findShortestPath [] ''A'' ''A'' = Some [''A''] \<and>
   isGraphConnected (edgesOf []) ''A'' ''A'' = False"
  by (simp add: findShortestPath_def isGraphConnected_def edgesOf_def)

text \<open>
  C3, amended: when the edge list is not empty, or start and target differ,
  \<open>findShortestPath\<close> returns null if and only if \<open>isGraphConnected\<close> on the full edge
  set returns false.
\<close>

theorem findShortestPath_null_iff:
  assumes "connections \<noteq> [] \<or> a \<noteq> b"
  shows "(findShortestPath connections a b = None) =
         (isGraphConnected (edgesOf connections) a b = False)"
proof (cases "connections = []")
  case True
  with assms have "a \<noteq> b" by simp
  then show ?thesis using True
    by (simp add: findShortestPath_def getConnections_def isGraphConnected_def edgesOf_def)
next
  case False
  then have ne: "edgesOf connections \<noteq> []" by (simp add: edgesOf_def)
  have "(findShortestPath connections a b = None) =
        (\<not> (\<exists>p. path_between (areDirectlyConnected connections) a b p))"
    using findShortestPath_result[of connections a b]
    by (cases "findShortestPath connections a b") (auto simp: shortest_result_def)
  then show ?thesis
    by (simp add: isGraphConnected_iff_path[OF ne] linked_edgesOf)
qed

theorem findShortestPath_null_iff_witness:
  "chain \<noteq> [] \<and> findShortestPath chain ''A'' ''D'' \<noteq> None \<and>
   isGraphConnected (edgesOf chain) ''A'' ''D'' \<and>
   ''E'' \<noteq> ''A'' \<and> findShortestPath [] ''E'' ''A'' = None \<and>
   \<not> isGraphConnected (edgesOf []) ''E'' ''A''"
proof -
  have h1: "chain \<noteq> [] \<or> ''A'' \<noteq> ''D''" by (simp add: chain_def)
  have h2: "[] \<noteq> ([] :: Connection list) \<or> ''E'' \<noteq> ''A''" by simp
  have "isGraphConnected (edgesOf chain) ''A'' ''D''"
    using findShortestPath_null_iff[OF h1] by (simp add: findShortestPath_chain_A_D)
  moreover have "findShortestPath [] ''E'' ''A'' = None"
    using findShortestPath_null_iff[OF h2] by (simp add: isGraphConnected_def edgesOf_def)
  ultimately show ?thesis
    by (simp add: findShortestPath_chain_A_D isGraphConnected_def edgesOf_def) (simp add: chain_def)
qed

text \<open>
  C4: in every session reachable from a start by guesses and timer updates, the revealed
  links are edges of the full graph between revealed people; attempts is at most maxAttempts
  while the game is in progress; gameWon holds only if start and target are connected within
  the revealed links; gameLost holds only if attempts equals maxAttempts and the win
  condition does not hold; start and target are revealed.
\<close>

theorem reachable_session_invariants:
  assumes "reachable connections gameState"
  shows "(\<forall>l\<in>set (revealedConnections gameState).
            areDirectlyConnected connections (source l) (target l) \<and>
            source l \<in> set (revealedPeople gameState) \<and>
            target l \<in> set (revealedPeople gameState)) \<and>
         (\<not> gameWon gameState \<and> \<not> gameLost gameState \<longrightarrow>
            attempts gameState \<le> maxAttempts gameState) \<and>
         (gameWon gameState \<longrightarrow>
            isGraphConnected (revealedConnections gameState)
              (startPerson gameState) (targetPerson gameState) \<and>
            (\<exists>p. path_between (linked (revealedConnections gameState))
                   (startPerson gameState) (targetPerson gameState) p)) \<and>
         (gameLost gameState \<longrightarrow>
            attempts gameState = maxAttempts gameState \<and> \<not> gameWon gameState \<and>
            \<not> isGraphConnected (revealedConnections gameState)
                (startPerson gameState) (targetPerson gameState)) \<and>
         startPerson gameState \<in> set (revealedPeople gameState) \<and>
         targetPerson gameState \<in> set (revealedPeople gameState)"
proof -
  from assms have inv: "session_inv connections gameState" by (rule reachable_inv)
  have path: "\<exists>p. path_between (linked (revealedConnections gameState))
                   (startPerson gameState) (targetPerson gameState) p"
    if "isGraphConnected (revealedConnections gameState)
          (startPerson gameState) (targetPerson gameState)"
  proof -
    from that have "revealedConnections gameState \<noteq> []"
      by (auto simp: isGraphConnected_def)
    from isGraphConnected_iff_path[OF this] that show ?thesis by simp
  qed
  from inv path show ?thesis unfolding session_inv_def by auto
qed

theorem reachable_session_invariants_witness:
  "reachable chain chain_won \<and> gameWon chain_won \<and>
   isGraphConnected (revealedConnections chain_won) ''A'' ''D'' \<and>
   ''A'' \<in> set (revealedPeople chain_won) \<and> ''D'' \<in> set (revealedPeople chain_won) \<and>
   attempts chain_won \<le> maxAttempts chain_won"
proof -
  have f: "gameWon chain_won" "startPerson chain_won = ''A''" "targetPerson chain_won = ''D''"
    "attempts chain_won \<le> maxAttempts chain_won"
    by (simp_all add: chain_won_def chain_after_B_def chain_start_def)
  from reachable_session_invariants[OF reachable_chain_won] f reachable_chain_won
  show ?thesis by simp
qed

text \<open>
  C5: guessing a name that is already revealed should be a free no-op. The branch for a
  revealed name does this, but the lookup before it compares the trimmed guess with the
  stored names as they are: on the edge list whose first name is \<open>A\<close> with a space before
  it, the session reveals that name, and guessing it is answered as not found and costs an
  attempt.
\<close>

theorem padded_revealed_guess_not_found:
  "startNewGame padded False always_zero 0 = Inr padded_start \<and>
   '' A'' \<in> set (revealedPeople padded_start) \<and>
   handleSearchWithName padded '' A'' padded_start = (NotFound, padded_start\<lparr>attempts := 1\<rparr>)"
proof -
  have "active '' A'' padded_start"
    by (simp add: active_def trim_plain padded_start_def)
  moreover have "trim '' A'' \<notin> set (allPeople padded)"
    by (simp add: trim_plain allPeople_padded)
  ultimately have "handleSearchWithName padded '' A'' padded_start =
                     (NotFound, spend_attempt padded_start)"
    by (rule handle_NotFound)
  moreover have "spend_attempt padded_start = padded_start\<lparr>attempts := 1\<rparr>"
    by (simp add: spend_attempt_def padded_start_def)
  ultimately show ?thesis
    using startNewGame_padded by (simp add: padded_start_def)
qed




text \<open>
  C7: in a won or lost session every guess leaves the session unchanged; a session set by
  \<open>startNewGame\<close> is a fresh one, in progress, with no attempts and no revealed links.
\<close>

theorem terminal_guess_ignored:
  "(gameWon gameState \<or> gameLost gameState \<longrightarrow>
      handleSearchWithName connections nameToSearch gameState = (Ignored, gameState)) \<and>
   (startNewGame connections loading random now = Inr fresh \<longrightarrow>
      gameStarted fresh \<and> \<not> gameWon fresh \<and> \<not> gameLost fresh \<and> attempts fresh = 0 \<and>
      revealedConnections fresh = [] \<and>
      revealedPeople fresh = set_add (targetPerson fresh) (set_add (startPerson fresh) []))"
proof (intro conjI impI)
  assume "gameWon gameState \<or> gameLost gameState"
  then have "\<not> active nameToSearch gameState" by (auto simp: active_def)
  then show "handleSearchWithName connections nameToSearch gameState = (Ignored, gameState)"
    by (rule handle_Ignored)
next
  assume "startNewGame connections loading random now = Inr fresh"
  then obtain s t where f: "fresh = \<lparr> startPerson = s, targetPerson = t,
            revealedPeople = set_add t (set_add s []), revealedConnections = [],
            gameStarted = True, gameWon = False, gameLost = False,
            attempts = 0, maxAttempts = 100, timeStarted = now, timeElapsed = 0, score = 0 \<rparr>"
    by (rule startNewGame_Inr)
  show "gameStarted fresh" "\<not> gameWon fresh" "\<not> gameLost fresh" "attempts fresh = 0"
    "revealedConnections fresh = []"
    "revealedPeople fresh = set_add (targetPerson fresh) (set_add (startPerson fresh) [])"
    by (simp_all add: f)
qed

theorem terminal_guess_ignored_witness:
  "gameWon chain_won \<and> handleSearchWithName chain ''B'' chain_won = (Ignored, chain_won) \<and>
   startNewGame chain False pick_A_D 0 = Inr chain_start \<and> \<not> gameWon chain_start \<and>
   attempts chain_start = 0"
proof -
  have w: "gameWon chain_won" by (simp add: chain_won_def)
  from terminal_guess_ignored[of chain_won chain "''B''" False pick_A_D 0 chain_start] w
    startNewGame_chain
  show ?thesis by simp
qed

text \<open>
  C8: when a guess wins, the score is \<open>1000 + max(0, 300 - floor(elapsedMs / 1000)) +
  max(0, (maxAttempts - attemptsUsed) * 50)\<close>, where \<open>attemptsUsed\<close> counts the winning guess.
\<close>

theorem win_score:
  assumes "handleSearchWithName connections nameToSearch gameState = (outcome, gameState')"
    and "\<not> gameWon gameState" and "gameWon gameState'"
  shows "score gameState' =
           computeScore (timeElapsed gameState) (attempts gameState + 1) (maxAttempts gameState) \<and>
         attempts gameState' = attempts gameState + 1 \<and>
         timeElapsed gameState' = timeElapsed gameState \<and>
         maxAttempts gameState' = maxAttempts gameState"
proof (cases rule: handle_cases[of nameToSearch gameState connections])
  case Ignored
  with assms show ?thesis by simp
next
  case NotFound
  with assms show ?thesis by (auto simp: spend_attempt_def Let_def split: if_splits)
next
  case AlreadyRevealed
  with assms show ?thesis by simp
next
  case NoLinkToRevealed
  with assms show ?thesis by (auto simp: spend_attempt_def Let_def split: if_splits)
next
  case Revealed
  with assms have "gameState' = reveal connections (trim nameToSearch) gameState" by simp
  with assms(2,3) show ?thesis
    by (auto simp: reveal_def computeScore_def Let_def split: if_splits)
qed

theorem win_score_witness:
  "handleSearchWithName chain ''C'' chain_after_B = (Revealed, chain_won) \<and>
   \<not> gameWon chain_after_B \<and> gameWon chain_won \<and>
   score chain_won = 1000 + 300 + (100 - 2) * 50"
proof -
  have a: "\<not> gameWon chain_after_B" by (simp add: chain_after_B_def chain_start_def)
  have b: "gameWon chain_won" by (simp add: chain_won_def)
  have c: "timeElapsed chain_after_B = 0" "attempts chain_after_B = 1"
    "maxAttempts chain_after_B = 100"
    by (simp_all add: chain_after_B_def chain_start_def)
  from win_score[OF guess_C a b] have "score chain_won = 1000 + 300 + (100 - 2) * 50"
    by (simp add: c computeScore_def)
  with guess_C a b show ?thesis by blast
qed




text \<open>
  C10: applied to an empty list of links, \<open>isGraphConnected\<close> returns false for every
  start and target, also when start and target are the same name.
\<close>

theorem isGraphConnected_empty: "isGraphConnected [] start goal = False"
  by (simp add: isGraphConnected_def)

end
